theory Spec2Isabelle
  imports Main "HOL-Library.Word"
begin

section \<open>Data model\<close>

text \<open>
  The program (\<^verbatim>\<open>Task2.cpp\<close>) moves \<^verbatim>\<open>std::vector<char>\<close> buffers around. A buffer is a
  list of 8-bit words; \<^verbatim>\<open>size_t\<close> offsets are natural numbers (every offset the
  program computes is at most the size of the buffer it indexes, so none of the additions
  and multiplications wraps; the one subtraction that could wrap is written out in
  \<open>size_sub\<close>).

  \<^verbatim>\<open>operator[]\<close> of a vector is unchecked: a read outside the vector is undefined
  behaviour. The chunk functions therefore return an \<open>option\<close>, with \<open>None\<close> for an
  execution that reads out of range, and the two file operations turn it into the
  error \<open>UndefinedBehaviour\<close>.
\<close>

type_synonym byte = "8 word"

datatype error =
    ReadFailedOrEmpty    \<comment> \<open>the early return after \<^verbatim>\<open>readFile\<close> gave no bytes\<close>
  | UnknownHeader        \<comment> \<open>\<^verbatim>\<open>Unknown file format header.\<close>\<close>
  | UndefinedBehaviour   \<comment> \<open>an out-of-range read or a division by zero\<close>

datatype diagnostic =
    InvalidChunkSize     \<comment> \<open>\<^verbatim>\<open>Invalid compressed chunk size\<close>, written to \<^verbatim>\<open>std::cerr\<close>\<close>

section \<open>The chunk encoder: \<^verbatim>\<open>compressRLEChunk\<close>\<close>

text \<open>
  The inner loop
  \<^verbatim>\<open>while (i + count < end && data[i + count] == c && count < 255) count++;\<close>
  The conjunction is evaluated left to right, so \<^verbatim>\<open>data[i + count]\<close> is read only when
  \<^verbatim>\<open>i + count < end\<close>.
\<close>

function countRun :: "byte list \<Rightarrow> nat \<Rightarrow> nat \<Rightarrow> byte \<Rightarrow> nat \<Rightarrow> nat option" where
  "countRun data i e c count =
     (if i + count < e then
        (if length data \<le> i + count then None
         else if data ! (i + count) = c \<and> count < 255
              then countRun data i e c (count + 1)
              else Some count)
      else Some count)"
  by pat_completeness auto
termination
  by (relation "measure (\<lambda>(data, i, e, c, count). e - (i + count))") auto

declare countRun.simps [simp del]

lemma countRun_ge: "countRun data i e c count = Some k \<Longrightarrow> count \<le> k"
proof (induction data i e c count rule: countRun.induct)
  case (1 data i e c count)
  show ?case
  proof (cases "i + count < e \<and> \<not> length data \<le> i + count \<and> data ! (i + count) = c \<and> count < 255")
    case True
    with "1.prems" have "countRun data i e c (count + 1) = Some k"
      by (subst (asm) countRun.simps) simp
    with True "1.IH" have "count + 1 \<le> k" by simp
    then show ?thesis by simp
  next
    case False
    with "1.prems" have "k = count"
      by (subst (asm) countRun.simps) (auto split: if_splits)
    then show ?thesis by simp
  qed
qed

text \<open>
  The outer loop \<^verbatim>\<open>while (i < end) { ... i += count; }\<close> with the vector
  \<^verbatim>\<open>compressed\<close> as accumulator. \<^verbatim>\<open>static_cast<char>(count)\<close> keeps the low eight bits
  of \<^verbatim>\<open>count\<close>.
\<close>

function compressLoop :: "byte list \<Rightarrow> nat \<Rightarrow> nat \<Rightarrow> byte list \<Rightarrow> byte list option" where
  "compressLoop data i e compressed =
     (if i < e then
        (if length data \<le> i then None
         else (let c = data ! i in
               case countRun data i e c 1 of
                 None \<Rightarrow> None
               | Some count \<Rightarrow>
                   compressLoop data (i + count) e (compressed @ [c, of_nat count])))
      else Some compressed)"
  by pat_completeness auto
termination
proof (relation "measure (\<lambda>(data, i, e, compressed). e - i)")
  show "wf (measure (\<lambda>(data, i, e, compressed). e - i))" by simp
next
  fix data :: "byte list" and i e :: nat and compressed :: "byte list" and x :: byte and count :: nat
  assume "i < e" and "countRun data i e x 1 = Some count"
  then have "1 \<le> count" by (auto dest: countRun_ge)
  with \<open>i < e\<close>
  show "((data, i + count, e, compressed @ [x, of_nat count]), (data, i, e, compressed))
          \<in> measure (\<lambda>(data, i, e, compressed). e - i)"
    by simp
qed

declare compressLoop.simps [simp del]

definition compressRLEChunk :: "byte list \<Rightarrow> nat \<Rightarrow> nat \<Rightarrow> byte list option" where
  "compressRLEChunk data start end = compressLoop data start end []"

section \<open>The chunk decoder: \<^verbatim>\<open>decompressRLEChunk\<close>\<close>

text \<open>
  \<^verbatim>\<open>end - start\<close> is a subtraction of \<^verbatim>\<open>size_t\<close> values (64 bits): it wraps around when
  \<^verbatim>\<open>end < start\<close>.
\<close>

definition size_sub :: "nat \<Rightarrow> nat \<Rightarrow> nat" where
  "size_sub a b = nat ((int a - int b) mod 2 ^ 64)"

text \<open>
  The loop \<^verbatim>\<open>for (size_t i = start; i < end; i += 2)\<close>: it reads \<^verbatim>\<open>data[i]\<close>, then
  \<^verbatim>\<open>data[i + 1]\<close> as an \<^verbatim>\<open>unsigned char\<close>, and appends that many copies of the first.
\<close>

function decompressLoop :: "byte list \<Rightarrow> nat \<Rightarrow> nat \<Rightarrow> byte list \<Rightarrow> byte list option" where
  "decompressLoop data i e decompressed =
     (if i < e then
        (if length data \<le> i then None
         else if length data \<le> i + 1 then None
         else (let c = data ! i; count = unat (data ! (i + 1)) in
               decompressLoop data (i + 2) e (decompressed @ replicate count c)))
      else Some decompressed)"
  by pat_completeness auto
termination
  by (relation "measure (\<lambda>(data, i, e, decompressed). e - i)") auto

declare decompressLoop.simps [simp del]

text \<open>
  The result is the returned vector together with what the call wrote to
  \<^verbatim>\<open>std::cerr\<close>. On an odd range the function reports \<open>InvalidChunkSize\<close> and returns
  the empty vector; it has no other way of telling its caller.
\<close>

definition decompressRLEChunk ::
    "byte list \<Rightarrow> nat \<Rightarrow> nat \<Rightarrow> (byte list \<times> diagnostic list) option" where
  "decompressRLEChunk data start end =
     (if size_sub end start mod 2 \<noteq> 0 then Some ([], [InvalidChunkSize])
      else case decompressLoop data start end [] of
             None \<Rightarrow> None
           | Some decompressed \<Rightarrow> Some (decompressed, []))"

section \<open>Partitioning and the worker threads\<close>

text \<open>
  Both file operations cut their input the same way:
  \<^verbatim>\<open>start = i * chunkSize; end = (i == numThreads - 1) ? size : start + chunkSize\<close>
  with \<^verbatim>\<open>chunkSize = size / numThreads\<close> (\<^verbatim>\<open>pairsPerThread = pairCount / numThreads\<close> in
  \<^verbatim>\<open>decompressFile\<close>).
\<close>

definition chunkRange :: "nat \<Rightarrow> nat \<Rightarrow> nat \<Rightarrow> nat \<times> nat" where
  "chunkRange len numThreads i =
     (let chunkSize = len div numThreads;
          start = i * chunkSize;
          end = (if i = numThreads - 1 then len else start + chunkSize)
      in (start, end))"

text \<open>
  Thread \<open>i\<close> computes its chunk and stores it in slot \<open>i\<close> of a vector that was created
  with one empty slot per thread; the main thread joins all threads before it reads the
  slots. A schedule is the order in which the threads store their results. A thread
  that runs into undefined behaviour makes the whole run undefined.
\<close>

fun runThreads :: "(nat \<Rightarrow> 'a option) \<Rightarrow> nat list \<Rightarrow> 'a list \<Rightarrow> 'a list option" where
  "runThreads job [] slots = Some slots"
| "runThreads job (i # sched) slots =
     (case job i of
        None \<Rightarrow> None
      | Some r \<Rightarrow> if i < length slots then runThreads job sched (slots[i := r]) else None)"

text \<open>
  The encoding fan-out of \<^verbatim>\<open>compressFile\<close> (launch, join, merge) under a schedule.
\<close>

definition compressJob :: "byte list \<Rightarrow> nat \<Rightarrow> nat \<Rightarrow> byte list option" where
  "compressJob data numThreads i =
     (let (start, end) = chunkRange (length data) numThreads i
      in compressRLEChunk data start end)"

definition compressChunks :: "nat list \<Rightarrow> byte list \<Rightarrow> nat \<Rightarrow> byte list option" where
  "compressChunks sched data numThreads =
     (case runThreads (compressJob data numThreads) sched (replicate numThreads []) of
        None \<Rightarrow> None
      | Some compressedChunks \<Rightarrow> Some (concat compressedChunks))"

text \<open>
  The decoding fan-out of \<^verbatim>\<open>decompressFile\<close>. Each thread copies its byte range
  \<^verbatim>\<open>std::vector<char>(rawData + startByte, rawData + endByte)\<close> and decodes the copy from
  offset 0. A slot holds the decoded vector; what the thread wrote to \<^verbatim>\<open>std::cerr\<close> is
  kept beside it.
\<close>

definition slice :: "byte list \<Rightarrow> nat \<Rightarrow> nat \<Rightarrow> byte list option" where
  "slice raw startByte endByte =
     (if startByte \<le> endByte \<and> endByte \<le> length raw
      then Some (take (endByte - startByte) (drop startByte raw))
      else None)"

definition decompressJob ::
    "byte list \<Rightarrow> nat \<Rightarrow> nat \<Rightarrow> (byte list \<times> diagnostic list) option" where
  "decompressJob rawData numThreads i =
     (let pairCount = length rawData div 2;
          (startPair, endPair) = chunkRange pairCount numThreads i;
          startByte = startPair * 2;
          endByte = endPair * 2
      in case slice rawData startByte endByte of
           None \<Rightarrow> None
         | Some chunk \<Rightarrow> decompressRLEChunk chunk 0 (endByte - startByte))"

definition decompressChunks ::
    "nat list \<Rightarrow> byte list \<Rightarrow> nat \<Rightarrow> (byte list \<times> diagnostic list) option" where
  "decompressChunks sched rawData numThreads =
     (case runThreads (decompressJob rawData numThreads) sched (replicate numThreads ([], [])) of
        None \<Rightarrow> None
      | Some decompressedChunks \<Rightarrow>
          Some (concat (map fst decompressedChunks), concat (map snd decompressedChunks)))"

section \<open>The file operations\<close>

text \<open>
  \<^verbatim>\<open>std::thread::hardware_concurrency()\<close> returns an \<^verbatim>\<open>unsigned int\<close>, 0 when the value
  is not computable.
\<close>

definition numThreadsOf :: "32 word \<Rightarrow> 32 word" where
  "numThreadsOf hardware_concurrency =
     (if hardware_concurrency = 0 then 2 else hardware_concurrency)"

text \<open>
  \<^verbatim>\<open>compressFile\<close> and \<^verbatim>\<open>decompressFile\<close>, from the bytes \<^verbatim>\<open>readFile\<close> returned to the
  bytes handed to \<^verbatim>\<open>writeFile\<close>; prompts and file access are outside the model.
  \<open>compressWith\<close> and \<open>decompressWith\<close> are the two bodies for a given number of threads,
  the threads storing their results in launch order. \<open>0x43\<close> is \<^verbatim>\<open>'C'\<close> and \<open>0x55\<close> is
  \<^verbatim>\<open>'U'\<close>.
\<close>

definition compressWith :: "byte list \<Rightarrow> nat \<Rightarrow> error + byte list" where
  "compressWith data numThreads =
     (if data = [] then Inl ReadFailedOrEmpty
      else if numThreads = 0 then Inl UndefinedBehaviour
      else case compressChunks [0..<numThreads] data numThreads of
             None \<Rightarrow> Inl UndefinedBehaviour
           | Some compressed \<Rightarrow>
               if length compressed \<ge> length data then Inr (0x55 # data)
               else Inr (0x43 # compressed))"

definition compressFile :: "byte list \<Rightarrow> 32 word \<Rightarrow> error + byte list" where
  "compressFile data hardware_concurrency =
     compressWith data (unat (numThreadsOf hardware_concurrency))"

definition decompressWith ::
    "byte list \<Rightarrow> nat \<Rightarrow> error + (byte list \<times> diagnostic list)" where
  "decompressWith data numThreads =
     (if length data < 1 then Inl ReadFailedOrEmpty
      else (let header = data ! 0 in
            if header = 0x43 then
              (if numThreads = 0 then Inl UndefinedBehaviour
               else case decompressChunks [0..<numThreads] (drop 1 data) numThreads of
                      None \<Rightarrow> Inl UndefinedBehaviour
                    | Some result \<Rightarrow> Inr result)
            else if header = 0x55 then Inr (drop 1 data, [])
            else Inl UnknownHeader))"

definition decompressFile ::
    "byte list \<Rightarrow> 32 word \<Rightarrow> error + (byte list \<times> diagnostic list)" where
  "decompressFile data hardware_concurrency =
     decompressWith data (unat (numThreadsOf hardware_concurrency))"

section \<open>Auxiliary notions for the proofs\<close>

text \<open>
  \<open>expand xs\<close> is the byte sequence that a sequence \<open>xs\<close> of (value, count) pairs
  stands for; a trailing single byte stands for nothing. It is not part of the program:
  the lemmas below relate the two chunk functions to it.
\<close>

fun expand :: "byte list \<Rightarrow> byte list" where
  "expand (v # n # rest) = replicate (unat n) v @ expand rest"
| "expand [v] = []"
| "expand [] = []"

text \<open>
  \<open>bound len n i\<close> is the offset at which chunk \<open>i\<close> of \<open>n\<close> starts, and \<open>len\<close> from
  \<open>n\<close> on: chunk \<open>i\<close> is the range from \<open>bound len n i\<close> to \<open>bound len n (Suc i)\<close>
  (lemma \<open>chunkRange_bound\<close>).
\<close>

definition bound :: "nat \<Rightarrow> nat \<Rightarrow> nat \<Rightarrow> nat" where
  "bound len n i = (if n \<le> i then len else i * (len div n))"

section \<open>Facts about the chunk encoder and the chunk decoder\<close>

lemma expand_append: "even (length xs) \<Longrightarrow> expand (xs @ ys) = expand xs @ expand ys"
  by (induction xs rule: expand.induct) auto

lemma expand_concat: "\<forall>x\<in>set xss. even (length x) \<Longrightarrow> expand (concat xss) = concat (map expand xss)"
  by (induction xss) (auto simp: expand_append)

lemma countRun_spec:
  assumes "e \<le> length data" "i + count \<le> e" "count \<le> 255" "\<forall>j<count. data ! (i + j) = c"
  shows "\<exists>k. countRun data i e c count = Some k \<and> count \<le> k \<and> k \<le> 255 \<and> i + k \<le> e
            \<and> (\<forall>j<k. data ! (i + j) = c) \<and> (k = 255 \<or> i + k = e \<or> data ! (i + k) \<noteq> c)"
  using assms
proof (induction data i e c count rule: countRun.induct)
  case (1 data i e c count)
  show ?case
  proof (cases "i + count < e \<and> data ! (i + count) = c \<and> count < 255")
    case True
    with "1.prems" have step: "countRun data i e c count = countRun data i e c (count + 1)"
      by (subst countRun.simps) simp
    from True "1.prems" have all: "\<forall>j<count + 1. data ! (i + j) = c"
      by (auto simp: less_Suc_eq)
    from True "1.prems" have "\<exists>k. countRun data i e c (count + 1) = Some k \<and> count + 1 \<le> k \<and> k \<le> 255
        \<and> i + k \<le> e \<and> (\<forall>j<k. data ! (i + j) = c) \<and> (k = 255 \<or> i + k = e \<or> data ! (i + k) \<noteq> c)"
      by (intro "1.IH" all) auto
    with step show ?thesis by auto
  next
    case False
    with "1.prems" have "countRun data i e c count = Some count"
      by (subst countRun.simps) auto
    with False "1.prems" show ?thesis by auto
  qed
qed

lemma take_drop_replicate:
  assumes "i + k \<le> length xs" "\<forall>j<k. xs ! (i + j) = c"
  shows "take k (drop i xs) = replicate k c"
  using assms by (auto simp: list_eq_iff_nth_eq)

lemma compressLoop_spec:
  assumes "i \<le> e" "e \<le> length data"
  shows "\<exists>out. compressLoop data i e acc = Some (acc @ out) \<and> even (length out)
            \<and> expand out = take (e - i) (drop i data)
            \<and> (\<forall>j. 2 * j + 1 < length out \<longrightarrow> out ! (2 * j + 1) \<noteq> 0)"
  using assms
proof (induction data i e acc rule: compressLoop.induct)
  case (1 data i e acc)
  show ?case
  proof (cases "i < e")
    case False
    then have "compressLoop data i e acc = Some acc"
      by (subst compressLoop.simps) simp
    with False show ?thesis by simp
  next
    case True
    with "1.prems" have inr: "\<not> length data \<le> i" by simp
    define c where "c = data ! i"
    from True "1.prems" obtain k where k: "countRun data i e c 1 = Some k" "1 \<le> k" "k \<le> 255"
        "i + k \<le> e" "\<forall>j<k. data ! (i + j) = c"
      using countRun_spec[of e data i 1 c] by (auto simp: c_def)
    have step: "compressLoop data i e acc = compressLoop data (i + k) e (acc @ [c, of_nat k])"
      using True inr k(1) by (subst compressLoop.simps) (simp add: c_def)
    from k "1.prems" obtain out where out:
        "compressLoop data (i + k) e (acc @ [c, of_nat k]) = Some ((acc @ [c, of_nat k]) @ out)"
        "even (length out)" "expand out = take (e - (i + k)) (drop (i + k) data)"
        "\<forall>j. 2 * j + 1 < length out \<longrightarrow> out ! (2 * j + 1) \<noteq> 0"
      using "1.IH"[OF True inr c_def k(1)] by auto
    have uk: "unat (of_nat k :: byte) = k"
      using k(3) by (simp add: unat_of_nat)
    have ne: "(of_nat k :: byte) \<noteq> 0"
      using uk k(2) by (metis not_one_le_zero unat_0)
    have "take (e - i) (drop i data) = take (k + (e - (i + k))) (drop i data)"
      using k(4) by simp
    also have "\<dots> = take k (drop i data) @ take (e - (i + k)) (drop (i + k) data)"
      by (simp only: take_add drop_drop add.commute)
    also have "take k (drop i data) = replicate k c"
      using k "1.prems" by (intro take_drop_replicate) auto
    finally have ex: "expand ([c, of_nat k] @ out) = take (e - i) (drop i data)"
      using out(3) uk by simp
    have nz: "\<forall>j. 2 * j + 1 < length ([c, of_nat k] @ out) \<longrightarrow> ([c, of_nat k] @ out) ! (2 * j + 1) \<noteq> 0"
    proof (intro allI impI)
      fix j assume j: "2 * j + 1 < length ([c, of_nat k] @ out)"
      show "([c, of_nat k] @ out) ! (2 * j + 1) \<noteq> 0"
      proof (cases j)
        case 0
        then show ?thesis using ne by simp
      next
        case (Suc j')
        with j out(4) show ?thesis by (simp add: nth_Cons')
      qed
    qed
    show ?thesis
      using step out(1,2) ex nz by (intro exI[of _ "[c, of_nat k] @ out"]) simp
  qed
qed

text \<open>A chunk that is one run of \<open>n\<close> equal bytes.\<close>

lemma countRun_replicate:
  assumes "i < n"
  shows "countRun (replicate n c) i n c 1 = Some (min (n - i) 255)"
proof -
  from assms obtain k where k: "countRun (replicate n c) i n c 1 = Some k" "1 \<le> k" "k \<le> 255"
      "i + k \<le> n" "k = 255 \<or> i + k = n \<or> replicate n c ! (i + k) \<noteq> c"
    using countRun_spec[of n "replicate n c" i 1 c] by auto
  have "k = 255 \<or> i + k = n"
  proof (cases "i + k < n")
    case True
    then have "replicate n c ! (i + k) = c" by simp
    with k(5) show ?thesis by blast
  next
    case False
    with k(4) show ?thesis by simp
  qed
  with k(3,4) have "k = min (n - i) 255" by auto
  with k(1) show ?thesis by simp
qed

lemma compressLoop_replicate:
  "i \<le> n \<Longrightarrow> compressLoop (replicate n c) i n acc =
     Some (acc @ concat (replicate ((n - i) div 255) [c, 255])
               @ (if (n - i) mod 255 = 0 then [] else [c, of_nat ((n - i) mod 255)]))"
proof (induction "n - i" arbitrary: i acc rule: less_induct)
  case less
  show ?case
  proof (cases "i < n")
    case False
    with less.prems have "i = n" by simp
    then show ?thesis by (subst compressLoop.simps) simp
  next
    case True
    let ?k = "min (n - i) 255"
    have step: "compressLoop (replicate n c) i n acc =
                compressLoop (replicate n c) (i + ?k) n (acc @ [c, of_nat ?k])"
      using True countRun_replicate[of i n c] by (subst compressLoop.simps) simp
    show ?thesis
    proof (cases "n - i < 255")
      case True
      then have k: "?k = n - i" by simp
      have "compressLoop (replicate n c) (i + (n - i)) n (acc @ [c, of_nat (n - i)]) =
            Some (acc @ [c, of_nat (n - i)])"
        using \<open>i < n\<close> by (subst compressLoop.simps) simp
      with step k True \<open>i < n\<close> show ?thesis by simp
    next
      case False
      then have k: "?k = 255" by simp
      from False \<open>i < n\<close> have lt: "n - (i + 255) < n - i" and le: "i + 255 \<le> n" by simp_all
      have d: "(n - i) div 255 = Suc ((n - (i + 255)) div 255)"
        and m: "(n - i) mod 255 = (n - (i + 255)) mod 255"
        using False by (simp_all add: le_div_geq le_mod_geq)
      show ?thesis
        using step less.hyps[OF lt le, of "acc @ [c, 255]"]
        by (simp only: k d m) simp
    qed
  qed
qed

text \<open>The chunk decoder on an even range inside its buffer.\<close>

lemma size_sub_even: "even (size_sub a b) \<longleftrightarrow> (even a \<longleftrightarrow> even b)"
proof -
  have "even (size_sub a b) \<longleftrightarrow> even ((int a - int b) mod 2 ^ 64)"
    by (simp add: size_sub_def even_nat_iff)
  also have "\<dots> \<longleftrightarrow> even (int a - int b)"
    by (rule dvd_mod_iff) simp
  also have "\<dots> \<longleftrightarrow> (even a \<longleftrightarrow> even b)"
    by simp
  finally show ?thesis .
qed

lemma decompressLoop_spec:
  assumes "i \<le> e" "e \<le> length data" "even (e - i)"
  shows "decompressLoop data i e acc = Some (acc @ expand (take (e - i) (drop i data)))"
  using assms
proof (induction data i e acc rule: decompressLoop.induct)
  case (1 data i e acc)
  show ?case
  proof (cases "i < e")
    case False
    then show ?thesis by (subst decompressLoop.simps) simp
  next
    case True
    with "1.prems" have "i + 2 \<le> e"
      by (cases "e = i + 1") auto
    with "1.prems" have inr: "\<not> length data \<le> i" "\<not> length data \<le> i + 1" by simp_all
    from \<open>i + 2 \<le> e\<close> "1.prems" have ev: "even (e - (i + 2))" by simp
    have step: "decompressLoop data i e acc =
        decompressLoop data (i + 2) e (acc @ replicate (unat (data ! (i + 1))) (data ! i))"
      using True inr by (subst decompressLoop.simps) simp
    have "drop i data = data ! i # data ! (i + 1) # drop (i + 2) data"
      using inr by (simp add: Cons_nth_drop_Suc)
    moreover have "e - i = Suc (Suc (e - (i + 2)))"
      using \<open>i + 2 \<le> e\<close> by simp
    ultimately have "take (e - i) (drop i data) =
        data ! i # data ! (i + 1) # take (e - (i + 2)) (drop (i + 2) data)"
      by simp
    then show ?thesis
      using step "1.IH"[OF True inr refl refl \<open>i + 2 \<le> e\<close> "1.prems"(2) ev] by simp
  qed
qed

lemma expand_conv_concat:
  "expand xs = concat (map (\<lambda>k. replicate (unat (xs ! (2 * k + 1))) (xs ! (2 * k)))
                           [0..<length xs div 2])"
proof (induction xs rule: expand.induct)
  case (1 v n rest)
  have "[0..<Suc (length rest div 2)] = 0 # map Suc [0..<length rest div 2]"
    by (simp add: upt_conv_Cons map_Suc_upt del: upt_Suc)
  then show ?case
    using 1 by (simp add: comp_def del: upt_Suc)
qed simp_all

lemma decompressRLEChunk_even:
  assumes "start \<le> stop" "stop \<le> length data" "even (stop - start)"
  shows "decompressRLEChunk data start stop =
           Some (expand (take (stop - start) (drop start data)), [])"
proof -
  from assms have "even (size_sub stop start)"
    by (auto simp: size_sub_even)
  then have "size_sub stop start mod 2 = 0"
    by (simp add: even_iff_mod_2_eq_zero)
  then show ?thesis
    using decompressLoop_spec[OF assms, of "[]"] by (simp add: decompressRLEChunk_def)
qed

section \<open>Facts about the partition\<close>

lemma chunkRange_bound:
  "i < n \<Longrightarrow> chunkRange len n i = (bound len n i, bound len n (Suc i))"
  by (auto simp: chunkRange_def bound_def Let_def)

lemma bound_0: "1 \<le> n \<Longrightarrow> bound len n 0 = 0"
  by (simp add: bound_def)

lemma bound_n: "bound len n n = len"
  by (simp add: bound_def)

lemma mult_div_le_len: "i \<le> n \<Longrightarrow> i * (len div n) \<le> (len :: nat)"
proof -
  assume "i \<le> n"
  then have "i * (len div n) \<le> n * (len div n)" by (rule mult_le_mono1)
  also have "\<dots> \<le> len" by simp
  finally show ?thesis .
qed

lemma bound_Suc: "bound len n i \<le> bound len n (Suc i)"
  by (auto simp: bound_def mult_div_le_len)

lemma bound_mono: "i \<le> j \<Longrightarrow> bound len n i \<le> bound len n j"
  by (rule lift_Suc_mono_le[of "bound len n"]) (simp_all add: bound_Suc)

lemma bound_le: "bound len n i \<le> len"
  by (auto simp: bound_def mult_div_le_len)

lemma bound_cover:
  "bound len n 0 \<le> x \<Longrightarrow> x < bound len n m \<Longrightarrow>
     \<exists>i<m. bound len n i \<le> x \<and> x < bound len n (Suc i)"
proof (induction m)
  case 0
  then show ?case by simp
next
  case (Suc m)
  show ?case
  proof (cases "x < bound len n m")
    case True
    with Suc obtain i where "i < m" "bound len n i \<le> x" "x < bound len n (Suc i)" by blast
    then show ?thesis by (intro exI[of _ i]) simp
  next
    case False
    with Suc.prems show ?thesis by (intro exI[of _ m]) simp
  qed
qed

lemma concat_slices:
  fixes b :: "nat \<Rightarrow> nat"
  assumes "\<And>i. b i \<le> b (Suc i)"
  shows "concat (map (\<lambda>i. take (b (Suc i) - b i) (drop (b i) xs)) [0..<m])
           = take (b m - b 0) (drop (b 0) xs)"
proof (induction m)
  case 0
  show ?case by simp
next
  case (Suc m)
  have le: "b 0 \<le> b m" "b m \<le> b (Suc m)"
    using assms by (simp_all add: lift_Suc_mono_le[of b 0 m])
  then have "b (Suc m) - b 0 = (b m - b 0) + (b (Suc m) - b m)" by simp
  then have "take (b (Suc m) - b 0) (drop (b 0) xs) =
      take (b m - b 0) (drop (b 0) xs) @ take (b (Suc m) - b m) (drop (b m - b 0 + b 0) xs)"
    by (simp only: take_add drop_drop)
  with le Suc show ?case by simp
qed

lemma compressRLEChunk_empty: "compressRLEChunk data s s = Some []"
  by (simp add: compressRLEChunk_def compressLoop.simps)

lemma decompressRLEChunk_empty: "decompressRLEChunk data s s = Some ([], [])"
  by (simp add: decompressRLEChunk_def size_sub_def decompressLoop.simps)

section \<open>Facts about the worker threads\<close>

text \<open>
  When every thread stores its result, the slots hold the results in thread order,
  whatever the order in which they were stored.
\<close>

lemma runThreads_Some:
  assumes "\<forall>i\<in>set sched. i < length slots \<and> job i = Some (f i)"
  shows "runThreads job sched slots =
           Some (map (\<lambda>i. if i \<in> set sched then f i else slots ! i) [0..<length slots])"
  using assms
proof (induction sched arbitrary: slots)
  case Nil
  show ?case by (simp add: map_nth)
next
  case (Cons i sched)
  from Cons.prems have i: "i < length slots" "job i = Some (f i)" by simp_all
  from Cons.prems have "\<forall>j\<in>set sched. j < length (slots[i := f i]) \<and> job j = Some (f j)"
    by simp
  then have "runThreads job sched (slots[i := f i]) =
      Some (map (\<lambda>j. if j \<in> set sched then f j else slots[i := f i] ! j) [0..<length slots])"
    using Cons.IH[of "slots[i := f i]"] by simp
  also have "map (\<lambda>j. if j \<in> set sched then f j else slots[i := f i] ! j) [0..<length slots] =
             map (\<lambda>j. if j \<in> set (i # sched) then f j else slots ! j) [0..<length slots]"
    by (rule map_cong) (auto simp: nth_list_update)
  finally show ?case using i by simp
qed

lemma runThreads_all:
  assumes "set sched = {0..<n}" "length slots = n" "\<And>i. i < n \<Longrightarrow> job i = Some (f i)"
  shows "runThreads job sched slots = Some (map f [0..<n])"
proof -
  have "runThreads job sched slots =
          Some (map (\<lambda>i. if i \<in> set sched then f i else slots ! i) [0..<length slots])"
    using assms by (intro runThreads_Some) auto
  also have "map (\<lambda>i. if i \<in> set sched then f i else slots ! i) [0..<length slots] = map f [0..<n]"
    using assms(1,2) by (intro map_cong) auto
  finally show ?thesis .
qed

lemma even_length_concat:
  "\<forall>x\<in>set xss. even (length x) \<Longrightarrow> even (length (concat xss))"
  by (induction xss) auto

lemma compressJob_spec:
  assumes "i < n"
  shows "\<exists>out. compressJob data n i = Some out \<and> even (length out)
           \<and> expand out = take (bound (length data) n (Suc i) - bound (length data) n i)
                                (drop (bound (length data) n i) data)
           \<and> (\<forall>j. 2 * j + 1 < length out \<longrightarrow> out ! (2 * j + 1) \<noteq> 0)"
proof -
  let ?b = "bound (length data) n"
  have "compressJob data n i = compressLoop data (?b i) (?b (Suc i)) []"
    using assms by (simp add: compressJob_def chunkRange_bound compressRLEChunk_def)
  then show ?thesis
    using compressLoop_spec[of "?b i" "?b (Suc i)" data "[]"]
    by (simp add: bound_Suc bound_le)
qed

lemma compressChunks_spec:
  assumes "1 \<le> n" "set sched = {0..<n}"
  shows "\<exists>out. compressChunks sched data n = Some out \<and> even (length out) \<and> expand out = data
           \<and> out = concat (map (\<lambda>i. the (compressJob data n i)) [0..<n])"
proof -
  let ?b = "bound (length data) n"
  let ?f = "\<lambda>i. the (compressJob data n i)"
  have job: "compressJob data n i = Some (?f i) \<and> even (length (?f i))
       \<and> expand (?f i) = take (?b (Suc i) - ?b i) (drop (?b i) data)" if "i < n" for i
    using compressJob_spec[OF that, of data] by auto
  have run: "runThreads (compressJob data n) sched (replicate n []) = Some (map ?f [0..<n])"
    using assms(2) job by (intro runThreads_all) auto
  then have res: "compressChunks sched data n = Some (concat (map ?f [0..<n]))"
    by (simp add: compressChunks_def)
  have ev: "\<forall>x\<in>set (map ?f [0..<n]). even (length x)"
    using job by auto
  then have "expand (concat (map ?f [0..<n])) = concat (map expand (map ?f [0..<n]))"
    by (rule expand_concat)
  also have "\<dots> = concat (map (\<lambda>i. take (?b (Suc i) - ?b i) (drop (?b i) data)) [0..<n])"
    using job by (auto simp: comp_def intro!: arg_cong[where f = concat])
  also have "\<dots> = take (?b n - ?b 0) (drop (?b 0) data)"
    by (rule concat_slices) (rule bound_Suc)
  also have "\<dots> = data"
    using assms(1) by (simp add: bound_0 bound_n)
  finally show ?thesis
    using res even_length_concat[OF ev] by simp
qed

lemma decompressJob_spec:
  assumes "i < n"
  shows "decompressJob raw n i =
           Some (expand (take (bound (length raw div 2) n (Suc i) * 2 - bound (length raw div 2) n i * 2)
                              (drop (bound (length raw div 2) n i * 2) raw)), [])"
proof -
  let ?b = "bound (length raw div 2) n"
  let ?s = "?b i * 2" and ?e = "?b (Suc i) * 2"
  let ?chunk = "take (?e - ?s) (drop ?s raw)"
  have le: "?s \<le> ?e" using bound_Suc[of "length raw div 2" n i] by simp
  have "?b (Suc i) \<le> length raw div 2" by (rule bound_le)
  then have e: "?e \<le> length raw" by simp
  from le e have sl: "slice raw ?s ?e = Some ?chunk"
    by (simp add: slice_def)
  from le e have len: "length ?chunk = ?e - ?s" by simp
  have ev: "even (?e - ?s - 0)" by simp
  have "decompressRLEChunk ?chunk 0 (?e - ?s) = Some (expand (take (?e - ?s - 0) (drop 0 ?chunk)), [])"
    by (rule decompressRLEChunk_even) (simp_all only: len ev le0 order_refl)
  then have "decompressRLEChunk ?chunk 0 (?e - ?s) = Some (expand ?chunk, [])"
    by simp
  then show ?thesis
    using assms sl by (simp add: decompressJob_def chunkRange_bound Let_def)
qed

lemma decompressChunks_spec:
  assumes "1 \<le> n" "set sched = {0..<n}"
  shows "decompressChunks sched raw n = Some (expand (take (2 * (length raw div 2)) raw), [])"
proof -
  let ?b = "\<lambda>i. bound (length raw div 2) n i * 2"
  let ?chunk = "\<lambda>i. take (?b (Suc i) - ?b i) (drop (?b i) raw)"
  let ?f = "\<lambda>i. (expand (?chunk i), [] :: diagnostic list)"
  have run: "runThreads (decompressJob raw n) sched (replicate n ([], [])) = Some (map ?f [0..<n])"
    using assms(2) by (intro runThreads_all) (auto simp: decompressJob_spec)
  have mono: "?b i \<le> ?b (Suc i)" for i
    using bound_Suc[of "length raw div 2" n i] by simp
  have ev: "\<forall>x\<in>set (map ?chunk [0..<n]). even (length x)"
  proof
    fix x assume "x \<in> set (map ?chunk [0..<n])"
    then obtain i where x: "x = ?chunk i" by auto
    have "bound (length raw div 2) n (Suc i) \<le> length raw div 2" by (rule bound_le)
    then have "?b (Suc i) \<le> length raw" by simp
    with mono[of i] have "length (?chunk i) = ?b (Suc i) - ?b i" by simp
    with x show "even (length x)" by simp
  qed
  have "concat (map fst (map ?f [0..<n])) = concat (map expand (map ?chunk [0..<n]))"
    by (simp add: comp_def)
  also have "\<dots> = expand (concat (map ?chunk [0..<n]))"
    using ev by (rule expand_concat[symmetric])
  also have "concat (map ?chunk [0..<n]) = take (?b n - ?b 0) (drop (?b 0) raw)"
    by (rule concat_slices) (rule mono)
  also have "\<dots> = take (2 * (length raw div 2)) raw"
    using assms(1) by (simp add: bound_0 bound_n mult.commute)
  finally have "concat (map fst (map ?f [0..<n])) = expand (take (2 * (length raw div 2)) raw)" .
  moreover have "concat (map snd (map ?f [0..<n])) = []"
    by (simp add: comp_def)
  ultimately show ?thesis
    using run by (simp only: decompressChunks_def option.case)
qed

section \<open>Facts about the file operations\<close>

lemma set_upt_self: "set [0..<n] = {0..<n}"
  by simp

lemma compressWith_spec:
  assumes "data \<noteq> []" "1 \<le> n"
  shows "\<exists>encoded. compressChunks [0..<n] data n = Some encoded \<and> even (length encoded)
           \<and> expand encoded = data
           \<and> compressWith data n =
                Inr (if length data \<le> length encoded then 0x55 # data else 0x43 # encoded)"
proof -
  obtain encoded where e: "compressChunks [0..<n] data n = Some encoded" "even (length encoded)"
      "expand encoded = data"
    using compressChunks_spec[OF assms(2) set_upt_self, of data] by blast
  with assms have "compressWith data n =
      Inr (if length data \<le> length encoded then 0x55 # data else 0x43 # encoded)"
    by (simp add: compressWith_def)
  with e show ?thesis by blast
qed

lemma decompressWith_C:
  assumes "1 \<le> n"
  shows "decompressWith (0x43 # raw) n = Inr (expand (take (2 * (length raw div 2)) raw), [])"
  using assms decompressChunks_spec[OF assms set_upt_self, of raw]
  by (simp add: decompressWith_def)

lemma decompressWith_U: "decompressWith (0x55 # raw) n = Inr (raw, [])"
  by (simp add: decompressWith_def)

text \<open>The last byte of a compressed payload of odd length has no effect.\<close>

lemma decompressWith_C_odd:
  assumes "1 \<le> n" "even (length raw)"
  shows "decompressWith (0x43 # raw @ [b]) n = decompressWith (0x43 # raw) n"
proof -
  from assms(2) have "2 * (length (raw @ [b]) div 2) = length raw"
    by simp
  then have "take (2 * (length (raw @ [b]) div 2)) (raw @ [b]) = raw"
    by simp
  moreover from assms(2) have "take (2 * (length raw div 2)) raw = raw"
    by simp
  ultimately show ?thesis
    by (simp only: decompressWith_C[OF assms(1)])
qed

lemma numThreadsOf_ge: "1 \<le> unat (numThreadsOf hw)"
proof -
  have "numThreadsOf hw \<noteq> 0"
    by (simp add: numThreadsOf_def)
  then show ?thesis
    by (simp add: unat_gt_0 Suc_le_eq)
qed

lemma compress_then_decompress:
  assumes "data \<noteq> []" "1 \<le> W1" "1 \<le> W2"
  shows "\<exists>container. compressWith data W1 = Inr container
           \<and> decompressWith container W2 = Inr (data, [])"
proof -
  obtain encoded where e: "even (length encoded)" "expand encoded = data"
      "compressWith data W1 =
         Inr (if length data \<le> length encoded then 0x55 # data else 0x43 # encoded)"
    using compressWith_spec[OF assms(1,2)] by blast
  from e(1) have "take (2 * (length encoded div 2)) encoded = encoded" by simp
  then have "decompressWith (0x43 # encoded) W2 = Inr (data, [])"
    using decompressWith_C[OF assms(3), of encoded] e(2) by simp
  with e(3) show ?thesis
    by (simp add: decompressWith_U)
qed

text \<open>A buffer in which no two neighbours are equal: every byte becomes a pair.\<close>

lemma countRun_alternating:
  assumes "i < e" "e \<le> length data" "Suc i < length data \<longrightarrow> data ! i \<noteq> data ! Suc i"
  shows "countRun data i e (data ! i) 1 = Some 1"
  using assms by (subst countRun.simps) auto

lemma compressLoop_alternating:
  assumes "i \<le> e" "e \<le> length data" "\<forall>j. Suc j < length data \<longrightarrow> data ! j \<noteq> data ! Suc j"
  shows "\<exists>out. compressLoop data i e acc = Some (acc @ out) \<and> length out = 2 * (e - i)"
  using assms
proof (induction data i e acc rule: compressLoop.induct)
  case (1 data i e acc)
  show ?case
  proof (cases "i < e")
    case False
    then have "compressLoop data i e acc = Some acc"
      by (subst compressLoop.simps) simp
    with False show ?thesis by simp
  next
    case True
    with "1.prems" have inr: "\<not> length data \<le> i" by simp
    have k: "countRun data i e (data ! i) 1 = Some 1"
      using True "1.prems" by (intro countRun_alternating) auto
    have step: "compressLoop data i e acc = compressLoop data (i + 1) e (acc @ [data ! i, of_nat 1])"
      using True inr k by (subst compressLoop.simps) simp
    from True "1.prems" obtain out where
        "compressLoop data (i + 1) e (acc @ [data ! i, of_nat 1]) = Some ((acc @ [data ! i, of_nat 1]) @ out)"
        "length out = 2 * (e - (i + 1))"
      using "1.IH"[OF True inr refl k] by auto
    with step True show ?thesis
      by (intro exI[of _ "[data ! i, of_nat 1] @ out"]) simp
  qed
qed

lemma compressChunks_alternating:
  assumes "1 \<le> n" "\<forall>j. Suc j < length data \<longrightarrow> data ! j \<noteq> data ! Suc j"
  shows "compressChunks [0..<n] data n = Some encoded \<Longrightarrow> length encoded = 2 * length data"
proof -
  assume enc: "compressChunks [0..<n] data n = Some encoded"
  let ?b = "bound (length data) n"
  let ?f = "\<lambda>i. the (compressJob data n i)"
  let ?sl = "\<lambda>i. take (?b (Suc i) - ?b i) (drop (?b i) data)"
  have len: "length (?f i) = 2 * length (?sl i)" if "i < n" for i
  proof -
    have "compressJob data n i = compressLoop data (?b i) (?b (Suc i)) []"
      using that by (simp add: compressJob_def chunkRange_bound compressRLEChunk_def)
    moreover obtain out where "compressLoop data (?b i) (?b (Suc i)) [] = Some ([] @ out)"
        "length out = 2 * (?b (Suc i) - ?b i)"
      using compressLoop_alternating[of "?b i" "?b (Suc i)" data "[]"] assms(2)
      by (auto simp: bound_Suc bound_le)
    moreover have "length (?sl i) = ?b (Suc i) - ?b i"
      using bound_le[of "length data" n "Suc i"] bound_Suc[of "length data" n i] by simp
    ultimately show ?thesis by simp
  qed
  from enc have "encoded = concat (map ?f [0..<n])"
    using compressChunks_spec[OF assms(1) set_upt_self, of data] by auto
  then have "length encoded = sum_list (map (\<lambda>i. length (?f i)) [0..<n])"
    by (simp add: length_concat comp_def)
  also have "\<dots> = sum_list (map (\<lambda>i. 2 * length (?sl i)) [0..<n])"
    using len by (intro arg_cong[where f = sum_list] map_cong) auto
  also have "\<dots> = 2 * length (concat (map ?sl [0..<n]))"
    by (simp add: length_concat comp_def sum_list_const_mult)
  also have "concat (map ?sl [0..<n]) = take (?b n - ?b 0) (drop (?b 0) data)"
    by (rule concat_slices) (rule bound_Suc)
  also have "\<dots> = data"
    using assms(1) by (simp add: bound_0 bound_n)
  finally show ?thesis .
qed

section \<open>A chunk is processed as if it were a buffer of its own\<close>

lemma countRun_slice:
  assumes "s \<le> e" "e \<le> length data" "i + count \<le> e - s"
  shows "countRun (take (e - s) (drop s data)) i (e - s) c count = countRun data (s + i) e c count"
  using assms(3)
proof (induction "e - s - (i + count)" arbitrary: count)
  case 0
  then have "\<not> i + count < e - s" "\<not> s + i + count < e" by simp_all
  then show ?case
    by (subst countRun.simps, subst (2) countRun.simps) simp
next
  case (Suc m)
  then have lt: "i + count < e - s" "s + i + count < e" by simp_all
  with assms have inr: "\<not> length (take (e - s) (drop s data)) \<le> i + count"
      "\<not> length data \<le> s + i + count"
    by simp_all
  from lt assms have nth: "take (e - s) (drop s data) ! (i + count) = data ! (s + i + count)"
    by (simp add: add.assoc)
  show ?case
  proof (cases "data ! (s + i + count) = c \<and> count < 255")
    case True
    from Suc.hyps(2) lt have "m = e - s - (i + (count + 1))" "i + (count + 1) \<le> e - s"
      by simp_all
    then have "countRun (take (e - s) (drop s data)) i (e - s) c (count + 1)
                 = countRun data (s + i) e c (count + 1)"
      by (rule Suc.hyps(1))
    with True lt inr nth show ?thesis
      by (subst countRun.simps, subst (2) countRun.simps) simp
  next
    case False
    with lt inr nth show ?thesis
      by (subst countRun.simps, subst (2) countRun.simps) auto
  qed
qed

lemma compressLoop_slice:
  assumes "s \<le> e" "e \<le> length data" "i \<le> e - s"
  shows "compressLoop (take (e - s) (drop s data)) i (e - s) acc = compressLoop data (s + i) e acc"
  using assms(3)
proof (induction "e - s - i" arbitrary: i acc rule: less_induct)
  case less
  let ?d = "take (e - s) (drop s data)"
  show ?case
  proof (cases "i < e - s")
    case False
    then have "\<not> s + i < e" by simp
    with False show ?thesis
      by (subst compressLoop.simps, subst (2) compressLoop.simps) simp
  next
    case True
    with assms have lt: "s + i < e" and inr: "\<not> length ?d \<le> i" "\<not> length data \<le> s + i"
      by simp_all
    from True assms have nth: "?d ! i = data ! (s + i)" by simp
    define c where "c = data ! (s + i)"
    have cr: "countRun ?d i (e - s) c 1 = countRun data (s + i) e c 1"
      using assms(1,2) True by (intro countRun_slice) simp_all
    from lt assms obtain k where k: "countRun data (s + i) e c 1 = Some k" "1 \<le> k" "s + i + k \<le> e"
      using countRun_spec[of e data "s + i" 1 c] by (auto simp: c_def)
    then have "e - s - (i + k) < e - s - i" "i + k \<le> e - s"
      using True by simp_all
    then have "compressLoop ?d (i + k) (e - s) (acc @ [c, of_nat k])
                 = compressLoop data (s + (i + k)) e (acc @ [c, of_nat k])"
      by (rule less.hyps)
    moreover have "compressLoop ?d i (e - s) acc = compressLoop ?d (i + k) (e - s) (acc @ [c, of_nat k])"
      using True inr(1) nth cr k(1) by (subst compressLoop.simps) (simp add: c_def)
    moreover have "compressLoop data (s + i) e acc = compressLoop data (s + i + k) e (acc @ [c, of_nat k])"
      using lt inr(2) k(1) by (subst compressLoop.simps) (simp add: c_def)
    ultimately show ?thesis by (simp add: add.assoc)
  qed
qed

lemma compressRLEChunk_slice:
  assumes "s \<le> e" "e \<le> length data"
  shows "compressRLEChunk (take (e - s) (drop s data)) 0 (e - s) = compressRLEChunk data s e"
  using compressLoop_slice[OF assms, of 0 "[]"] by (simp add: compressRLEChunk_def)

lemma decompressRLEChunk_slice:
  assumes "s \<le> e" "e \<le> length raw" "even (e - s)"
  shows "decompressRLEChunk (take (e - s) (drop s raw)) 0 (e - s)
           = Some (expand (take (e - s) (drop s raw)), [])"
proof -
  let ?chunk = "take (e - s) (drop s raw)"
  from assms have len: "length ?chunk = e - s" by simp
  have "decompressRLEChunk ?chunk 0 (e - s) = Some (expand (take (e - s - 0) (drop 0 ?chunk)), [])"
  proof (rule decompressRLEChunk_even)
    show "0 \<le> e - s" by simp
    show "e - s \<le> length ?chunk" by (simp only: len)
    show "even (e - s - 0)" using assms(3) by simp
  qed
  moreover have "take (e - s - 0) (drop 0 ?chunk) = ?chunk"
    using len by simp
  ultimately show ?thesis by (simp only:)
qed

lemma decompressChunks_concat:
  assumes "1 \<le> n" "set sched = {0..<n}"
  shows "decompressChunks sched raw n =
           Some (concat (map (\<lambda>i. expand (take (bound (length raw div 2) n (Suc i) * 2
                                                   - bound (length raw div 2) n i * 2)
                                                (drop (bound (length raw div 2) n i * 2) raw)))
                             [0..<n]), [])"
proof -
  let ?f = "\<lambda>i. (expand (take (bound (length raw div 2) n (Suc i) * 2 - bound (length raw div 2) n i * 2)
                                (drop (bound (length raw div 2) n i * 2) raw)), [] :: diagnostic list)"
  have "runThreads (decompressJob raw n) sched (replicate n ([], [])) = Some (map ?f [0..<n])"
    using assms(2) by (intro runThreads_all) (auto simp: decompressJob_spec)
  then show ?thesis
    by (simp add: decompressChunks_def comp_def)
qed

section \<open>Round trip\<close>

text \<open>
  C1 (as amended). For every buffer that is not empty and all worker counts
  \<open>W1, W2 \<ge> 1\<close>, compressing with \<open>W1\<close> workers produces a container, and decompressing
  that container with \<open>W2\<close> workers gives back the buffer, with nothing reported on
  \<^verbatim>\<open>std::cerr\<close> and no read out of range; the same holds for the two file operations
  whatever the host reports as its hardware concurrency. (The empty buffer is refused by
  \<^verbatim>\<open>compressFile\<close>, so there is no container to decode.)
\<close>

theorem roundtrip:
  "data \<noteq> [] \<and> 1 \<le> W1 \<and> 1 \<le> W2 \<longrightarrow>
     (\<exists>container. compressWith data W1 = Inr container
         \<and> decompressWith container W2 = Inr (data, []))
   \<and> (\<exists>container. compressFile data hw1 = Inr container
         \<and> decompressFile container hw2 = Inr (data, []))"
proof (intro impI conjI)
  assume a: "data \<noteq> [] \<and> 1 \<le> W1 \<and> 1 \<le> W2"
  then show "\<exists>container. compressWith data W1 = Inr container
         \<and> decompressWith container W2 = Inr (data, [])"
    by (intro compress_then_decompress) simp_all
  from a show "\<exists>container. compressFile data hw1 = Inr container
         \<and> decompressFile container hw2 = Inr (data, [])"
    unfolding compressFile_def decompressFile_def
    by (intro compress_then_decompress numThreadsOf_ge) simp
qed

theorem roundtrip_witness:
  "[7, 7, 7, 7, 7, 7, 7, 7, 1 :: byte] \<noteq> [] \<and> (1::nat) \<le> 2 \<and> (1::nat) \<le> 3
   \<and> compressWith [7, 7, 7, 7, 7, 7, 7, 7, 1] 2 = Inr [0x43, 7, 4, 7, 4, 1, 1]
   \<and> decompressWith [0x43, 7, 4, 7, 4, 1, 1] 3 = Inr ([7, 7, 7, 7, 7, 7, 7, 7, 1], [])"
proof -
  have h: "[7, 7, 7, 7, 7, 7, 7, 7, 1 :: byte] \<noteq> [] \<and> (1::nat) \<le> 2 \<and> (1::nat) \<le> 3"
    by simp
  from roundtrip [of "[7, 7, 7, 7, 7, 7, 7, 7, 1]" 2 3, THEN mp, OF h, THEN conjunct1]
  obtain container where "compressWith [7, 7, 7, 7, 7, 7, 7, 7, 1] 2 = Inr container"
      "decompressWith container 3 = Inr ([7, 7, 7, 7, 7, 7, 7, 7, 1], [])"
    by blast
  moreover have "compressWith [7, 7, 7, 7, 7, 7, 7, 7, 1] 2 = Inr [0x43, 7, 4, 7, 4, 1, 1]"
    by code_simp
  ultimately show ?thesis
    using h by auto
qed

theorem roundtrip_empty_counterexample:
  "compressFile [] 4 = Inl ReadFailedOrEmpty"
  by (simp add: compressFile_def compressWith_def)

section \<open>A compressed payload of odd length\<close>

text \<open>
  C2 does not hold of the code. \<^verbatim>\<open>decompressFile\<close> computes the number of pairs as
  \<^verbatim>\<open>rawSize / 2\<close>, so the last byte of an odd payload is ignored, the pairs before it are
  decoded and the result is written as a success: the container \<^verbatim>\<open>'C', 0x41, 3, 0x42\<close>
  decodes to three bytes \<^verbatim>\<open>0x41\<close>, exactly as \<^verbatim>\<open>'C', 0x41, 3\<close> does (lemma
  \<open>decompressWith_C_odd\<close> is the general fact). The check for an odd range in
  \<^verbatim>\<open>decompressRLEChunk\<close> (last conjunct) is never reached from \<^verbatim>\<open>decompressFile\<close>, which
  only passes ranges of even length.
\<close>

theorem odd_payload_truncated:
  "decompressFile [0x43, 0x41, 0x03, 0x42] hw = Inr ([0x41, 0x41, 0x41], [])
   \<and> decompressFile [0x43, 0x41, 0x03] hw = Inr ([0x41, 0x41, 0x41], [])
   \<and> decompressFile [0x43, 0x42] hw = Inr ([], [])
   \<and> decompressRLEChunk [0x41, 0x03, 0x42] 0 3 = Some ([], [InvalidChunkSize])"
proof -
  have n: "1 \<le> unat (numThreadsOf hw)"
    by (rule numThreadsOf_ge)
  have e1: "expand (take (2 * (length [0x41, 0x03, 0x42 :: byte] div 2)) [0x41, 0x03, 0x42])
              = [0x41, 0x41, 0x41]"
    and e2: "expand (take (2 * (length [0x41, 0x03 :: byte] div 2)) [0x41, 0x03])
              = [0x41, 0x41, 0x41]"
    and e3: "expand (take (2 * (length [0x42 :: byte] div 2)) [0x42]) = []"
    by code_simp+
  have "decompressRLEChunk [0x41, 0x03, 0x42] 0 3 = Some ([], [InvalidChunkSize])"
    by (simp add: decompressRLEChunk_def size_sub_def)
  then show ?thesis
    by (simp only: decompressFile_def decompressWith_C[OF n] e1 e2 e3 simp_thms)
qed

section \<open>Empty input\<close>

text \<open>
  C3 (as amended). A zero-length input is refused by both file operations: each
  returns early after its message and writes nothing. The 1-byte container that consists
  of the header \<^verbatim>\<open>'U'\<close> alone is decoded to the zero-length buffer.
\<close>

theorem empty_input:
  "compressFile [] hw = Inl ReadFailedOrEmpty
   \<and> decompressFile [] hw = Inl ReadFailedOrEmpty
   \<and> decompressFile [0x55] hw = Inr ([], [])"
  by (simp add: compressFile_def compressWith_def decompressFile_def decompressWith_def)

theorem empty_input_counterexample:
  "compressFile [] 2 \<noteq> Inr [0x55]"
  by (simp add: compressFile_def compressWith_def)

section \<open>The choice of the header\<close>

text \<open>
  C4 (as amended). For every buffer that is not empty, \<^verbatim>\<open>compressFile\<close> compares the
  length of the concatenated chunk encodings with the length of the buffer: when the
  encoding is strictly shorter the container is \<^verbatim>\<open>'C'\<close> followed by the encoding, otherwise
  it is \<^verbatim>\<open>'U'\<close> followed by the buffer. In particular a buffer in which no two
  neighbouring bytes are equal is stored as \<^verbatim>\<open>'U'\<close> followed by the buffer, for every
  worker count. (For the empty buffer no container is produced.)
\<close>

theorem compressFile_header_choice:
  "data \<noteq> [] \<and> 1 \<le> W \<longrightarrow>
     (\<exists>encoded. compressChunks [0..<W] data W = Some encoded
        \<and> (length encoded < length data \<longrightarrow> compressWith data W = Inr (0x43 # encoded))
        \<and> (\<not> length encoded < length data \<longrightarrow> compressWith data W = Inr (0x55 # data)))
     \<and> ((\<forall>j. Suc j < length data \<longrightarrow> data ! j \<noteq> data ! Suc j) \<longrightarrow>
           compressWith data W = Inr (0x55 # data) \<and> compressFile data hw = Inr (0x55 # data))
     \<and> compressFile data hw = compressWith data (unat (numThreadsOf hw))"
proof (intro impI conjI)
  assume a: "data \<noteq> [] \<and> 1 \<le> W"
  then obtain encoded where e: "compressChunks [0..<W] data W = Some encoded"
      "compressWith data W =
         Inr (if length data \<le> length encoded then 0x55 # data else 0x43 # encoded)"
    using compressWith_spec[of data W] by blast
  then show "\<exists>encoded. compressChunks [0..<W] data W = Some encoded
        \<and> (length encoded < length data \<longrightarrow> compressWith data W = Inr (0x43 # encoded))
        \<and> (\<not> length encoded < length data \<longrightarrow> compressWith data W = Inr (0x55 # data))"
    by (intro exI[of _ encoded]) simp
  show "compressFile data hw = compressWith data (unat (numThreadsOf hw))"
    by (simp add: compressFile_def)
  have alt: "compressWith data n = Inr (0x55 # data)"
    if "1 \<le> n" "\<forall>j. Suc j < length data \<longrightarrow> data ! j \<noteq> data ! Suc j" for n
  proof -
    from a that(1) obtain enc where enc: "compressChunks [0..<n] data n = Some enc"
        "compressWith data n = Inr (if length data \<le> length enc then 0x55 # data else 0x43 # enc)"
      using compressWith_spec[of data n] by blast
    from compressChunks_alternating[OF that enc(1)] have "length data \<le> length enc" by simp
    with enc(2) show ?thesis by simp
  qed
  assume b: "\<forall>j. Suc j < length data \<longrightarrow> data ! j \<noteq> data ! Suc j"
  from a b show "compressWith data W = Inr (0x55 # data)"
    by (intro alt) simp_all
  from b show "compressFile data hw = Inr (0x55 # data)"
    unfolding compressFile_def by (intro alt numThreadsOf_ge)
qed

theorem compressFile_header_choice_witness:
  "[0, 1, 0, 1 :: byte] \<noteq> [] \<and> (1::nat) \<le> 2
   \<and> compressChunks [0..<2] [0, 1, 0, 1] 2 = Some [0, 1, 1, 1, 0, 1, 1, 1]
   \<and> \<not> length [0, 1, 1, 1, 0, 1, 1, 1 :: byte] < length [0, 1, 0, 1 :: byte]
   \<and> compressWith [0, 1, 0, 1] 2 = Inr [0x55, 0, 1, 0, 1]
   \<and> compressFile [0, 1, 0, 1] 8 = Inr [0x55, 0, 1, 0, 1]
   \<and> [7, 7, 7, 7, 7, 7, 7, 7, 1 :: byte] \<noteq> []
   \<and> compressChunks [0..<2] [7, 7, 7, 7, 7, 7, 7, 7, 1] 2 = Some [7, 4, 7, 4, 1, 1]
   \<and> length [7, 4, 7, 4, 1, 1 :: byte] < length [7, 7, 7, 7, 7, 7, 7, 7, 1 :: byte]
   \<and> compressWith [7, 7, 7, 7, 7, 7, 7, 7, 1] 2 = Inr [0x43, 7, 4, 7, 4, 1, 1]"
proof -
  have h1: "[0, 1, 0, 1 :: byte] \<noteq> [] \<and> (1::nat) \<le> 2"
    and h2: "[7, 7, 7, 7, 7, 7, 7, 7, 1 :: byte] \<noteq> [] \<and> (1::nat) \<le> 2"
    by simp_all
  have alt: "\<forall>j. Suc j < length [0, 1, 0, 1 :: byte] \<longrightarrow> [0, 1, 0, 1 :: byte] ! j \<noteq> [0, 1, 0, 1] ! Suc j"
    by (auto simp: less_Suc_eq nth_Cons')
  note c1 = compressFile_header_choice [of "[0, 1, 0, 1]" 2 8, THEN mp, OF h1]
  note c2 = compressFile_header_choice [of "[7, 7, 7, 7, 7, 7, 7, 7, 1]" 2 8, THEN mp, OF h2]
  have e1: "compressChunks [0..<2] [0, 1, 0, 1] 2 = Some [0, 1, 1, 1, 0, 1, 1, 1]"
    and e2: "compressChunks [0..<2] [7, 7, 7, 7, 7, 7, 7, 7, 1] 2 = Some [7, 4, 7, 4, 1, 1]"
    by code_simp+
  from c1 [THEN conjunct2, THEN conjunct1, THEN mp, OF alt]
  have "compressWith [0, 1, 0, 1] 2 = Inr [0x55, 0, 1, 0, 1]"
    and "compressFile [0, 1, 0, 1] 8 = Inr [0x55, 0, 1, 0, 1]"
    by simp_all
  moreover from c2 [THEN conjunct1] e2
  have "compressWith [7, 7, 7, 7, 7, 7, 7, 7, 1] 2 = Inr [0x43, 7, 4, 7, 4, 1, 1]"
    by auto
  ultimately show ?thesis
    using e1 e2 by simp
qed

theorem compressFile_header_choice_counterexample:
  "compressChunks [0..<1] [] 1 = Some [] \<and> compressFile [] 1 = Inl ReadFailedOrEmpty
   \<and> compressFile [] 1 \<noteq> Inr [0x55]"
  by (simp add: compressFile_def compressWith_def compressChunks_def compressJob_def
      chunkRange_def compressRLEChunk_def compressLoop.simps)

section \<open>The counts written by the chunk encoder\<close>

text \<open>
  C5. On a range inside the buffer the chunk encoder reads nothing out of range and
  returns a sequence of (value, count) pairs in which every count byte, read as an
  unsigned number, is between 1 and 255. A chunk of \<open>n\<close> equal bytes is encoded as
  \<open>n div 255\<close> pairs with count 255, followed by one pair with count \<open>n mod 255\<close> when
  that is not zero; so 300 bytes \<open>0xAB\<close> give exactly \<open>(0xAB, 255), (0xAB, 45)\<close>.
\<close>

theorem compressRLEChunk_count_range:
  "(start \<le> stop \<and> stop \<le> length data \<longrightarrow>
      (\<exists>out. compressRLEChunk data start stop = Some out \<and> even (length out) \<and>
         (\<forall>j. 2 * j + 1 < length out \<longrightarrow>
                1 \<le> unat (out ! (2 * j + 1)) \<and> unat (out ! (2 * j + 1)) \<le> 255)))
   \<and> compressRLEChunk (replicate n c) 0 n =
       Some (concat (replicate (n div 255) [c, 255])
             @ (if n mod 255 = 0 then [] else [c, of_nat (n mod 255)]))
   \<and> compressRLEChunk (replicate 300 0xAB) 0 300 = Some [0xAB, 255, 0xAB, 45]"
proof (intro conjI impI)
  assume "start \<le> stop \<and> stop \<le> length data"
  then obtain out where out: "compressLoop data start stop [] = Some ([] @ out)" "even (length out)"
      "\<forall>j. 2 * j + 1 < length out \<longrightarrow> out ! (2 * j + 1) \<noteq> 0"
    using compressLoop_spec[of start stop data "[]"] by blast
  have "1 \<le> unat b \<and> unat b \<le> 255" if "b \<noteq> 0" for b :: byte
  proof -
    have "unat b < 2 ^ LENGTH(8)" by (rule unsigned_less)
    moreover from that have "unat b \<noteq> 0" by (simp add: unat_eq_0)
    ultimately show ?thesis by simp
  qed
  with out show "\<exists>out. compressRLEChunk data start stop = Some out \<and> even (length out) \<and>
         (\<forall>j. 2 * j + 1 < length out \<longrightarrow>
                1 \<le> unat (out ! (2 * j + 1)) \<and> unat (out ! (2 * j + 1)) \<le> 255)"
    by (auto simp: compressRLEChunk_def)
next
  show "compressRLEChunk (replicate n c) 0 n =
       Some (concat (replicate (n div 255) [c, 255])
             @ (if n mod 255 = 0 then [] else [c, of_nat (n mod 255)]))"
    using compressLoop_replicate[of 0 n c "[]"] by (simp add: compressRLEChunk_def)
next
  have "(300::nat) div 255 = 1" "(300::nat) mod 255 = 45" by simp_all
  then show "compressRLEChunk (replicate 300 0xAB) 0 300 = Some [0xAB, 255, 0xAB, 45]"
    using compressLoop_replicate[of 0 300 "0xAB" "[]"] by (simp add: compressRLEChunk_def)
qed

theorem compressRLEChunk_count_range_witness:
  "(0::nat) \<le> 3 \<and> 3 \<le> length [5, 5, 7 :: byte]
   \<and> compressRLEChunk [5, 5, 7] 0 3 = Some [5, 2, 7, 1]
   \<and> 1 \<le> unat (2 :: byte) \<and> unat (2 :: byte) \<le> 255
   \<and> compressRLEChunk (replicate 300 0xAB) 0 300 = Some [0xAB, 255, 0xAB, 45]"
proof -
  have "compressRLEChunk [5, 5, 7] 0 3 = Some [5, 2, 7, 1]"
    by code_simp
  with compressRLEChunk_count_range [of 0 3 "[5, 5, 7]"] show ?thesis
    by simp
qed

section \<open>The partition\<close>

text \<open>
  C6. For a length \<open>L\<close> and \<open>W \<ge> 1\<close> workers, the ranges \<open>chunkRange L W i\<close> for
  \<open>i = 0, \<dots>, W - 1\<close> (the fan-out loops compute exactly these) start at 0, end at
  \<open>L\<close>, each lies inside \<open>[0, L]\<close> with start at most end, each but the last is
  \<open>[i * (L div W), (i + 1) * (L div W))\<close> and ends where the next one starts, their
  union is \<open>[0, L)\<close> and they are pairwise disjoint. When \<open>L < W\<close> every range but the
  last is empty. On an empty range the chunk encoder returns the empty vector, and the
  chunk decoder returns the empty vector and reports nothing.
\<close>

theorem chunkRange_partition:
  "1 \<le> W \<longrightarrow>
     fst (chunkRange L W 0) = 0
   \<and> snd (chunkRange L W (W - 1)) = L
   \<and> (\<forall>i<W. fst (chunkRange L W i) \<le> snd (chunkRange L W i) \<and> snd (chunkRange L W i) \<le> L)
   \<and> (\<forall>i. Suc i < W \<longrightarrow> chunkRange L W i = (i * (L div W), (i + 1) * (L div W))
                         \<and> snd (chunkRange L W i) = fst (chunkRange L W (Suc i)))
   \<and> (\<Union>i<W. {fst (chunkRange L W i) ..< snd (chunkRange L W i)}) = {0..<L}
   \<and> (\<forall>i<W. \<forall>j<W. i \<noteq> j \<longrightarrow>
         {fst (chunkRange L W i) ..< snd (chunkRange L W i)}
           \<inter> {fst (chunkRange L W j) ..< snd (chunkRange L W j)} = {})
   \<and> (L < W \<longrightarrow> (\<forall>i. Suc i < W \<longrightarrow> fst (chunkRange L W i) = snd (chunkRange L W i)))
   \<and> compressRLEChunk data s s = Some []
   \<and> decompressRLEChunk data s s = Some ([], [])"
proof
  assume W: "1 \<le> W"
  let ?b = "bound L W"
  have r: "chunkRange L W i = (?b i, ?b (Suc i))" if "i < W" for i
    using that by (rule chunkRange_bound)
  have first: "fst (chunkRange L W 0) = 0"
    using W by (simp add: r bound_0)
  have last: "snd (chunkRange L W (W - 1)) = L"
    using W by (simp add: r bound_n)
  have ordered: "\<forall>i<W. fst (chunkRange L W i) \<le> snd (chunkRange L W i) \<and> snd (chunkRange L W i) \<le> L"
    by (simp add: r bound_Suc bound_le)
  have inner: "\<forall>i. Suc i < W \<longrightarrow> chunkRange L W i = (i * (L div W), (i + 1) * (L div W))
                         \<and> snd (chunkRange L W i) = fst (chunkRange L W (Suc i))"
    by (auto simp: r) (simp_all add: bound_def)
  have union: "(\<Union>i<W. {fst (chunkRange L W i) ..< snd (chunkRange L W i)}) = {0..<L}"
  proof (rule set_eqI)
    fix x
    show "x \<in> (\<Union>i<W. {fst (chunkRange L W i) ..< snd (chunkRange L W i)}) \<longleftrightarrow> x \<in> {0..<L}"
    proof
      assume "x \<in> (\<Union>i<W. {fst (chunkRange L W i) ..< snd (chunkRange L W i)})"
      then obtain i where "i < W" "x < ?b (Suc i)" by (auto simp: r)
      with bound_le[of L W "Suc i"] show "x \<in> {0..<L}" by simp
    next
      assume "x \<in> {0..<L}"
      with W have "?b 0 \<le> x" "x < ?b W" by (simp_all add: bound_0 bound_n)
      then obtain i where "i < W" "?b i \<le> x" "x < ?b (Suc i)"
        using bound_cover by blast
      then show "x \<in> (\<Union>i<W. {fst (chunkRange L W i) ..< snd (chunkRange L W i)})"
        by (auto simp: r)
    qed
  qed
  have apart: "{?b i ..< ?b (Suc i)} \<inter> {?b j ..< ?b (Suc j)} = {}" if "i < j" for i j
  proof -
    from that have "?b (Suc i) \<le> ?b j" by (intro bound_mono) simp
    then show ?thesis by auto
  qed
  have disjoint: "\<forall>i<W. \<forall>j<W. i \<noteq> j \<longrightarrow>
         {fst (chunkRange L W i) ..< snd (chunkRange L W i)}
           \<inter> {fst (chunkRange L W j) ..< snd (chunkRange L W j)} = {}"
  proof (intro allI impI)
    fix i j assume "i < W" "j < W" "i \<noteq> j"
    then consider "i < j" | "j < i" by linarith
    then show "{fst (chunkRange L W i) ..< snd (chunkRange L W i)}
           \<inter> {fst (chunkRange L W j) ..< snd (chunkRange L W j)} = {}"
    proof cases
      case 1
      with \<open>i < W\<close> \<open>j < W\<close> show ?thesis using apart[of i j] by (simp add: r)
    next
      case 2
      with \<open>i < W\<close> \<open>j < W\<close> show ?thesis using apart[of j i] by (simp add: r Int_commute)
    qed
  qed
  have degenerate: "L < W \<longrightarrow> (\<forall>i. Suc i < W \<longrightarrow> fst (chunkRange L W i) = snd (chunkRange L W i))"
    by (auto simp: r) (simp add: bound_def)
  show "fst (chunkRange L W 0) = 0
   \<and> snd (chunkRange L W (W - 1)) = L
   \<and> (\<forall>i<W. fst (chunkRange L W i) \<le> snd (chunkRange L W i) \<and> snd (chunkRange L W i) \<le> L)
   \<and> (\<forall>i. Suc i < W \<longrightarrow> chunkRange L W i = (i * (L div W), (i + 1) * (L div W))
                         \<and> snd (chunkRange L W i) = fst (chunkRange L W (Suc i)))
   \<and> (\<Union>i<W. {fst (chunkRange L W i) ..< snd (chunkRange L W i)}) = {0..<L}
   \<and> (\<forall>i<W. \<forall>j<W. i \<noteq> j \<longrightarrow>
         {fst (chunkRange L W i) ..< snd (chunkRange L W i)}
           \<inter> {fst (chunkRange L W j) ..< snd (chunkRange L W j)} = {})
   \<and> (L < W \<longrightarrow> (\<forall>i. Suc i < W \<longrightarrow> fst (chunkRange L W i) = snd (chunkRange L W i)))
   \<and> compressRLEChunk data s s = Some []
   \<and> decompressRLEChunk data s s = Some ([], [])"
    using first last ordered inner union disjoint degenerate
    by (simp only: compressRLEChunk_empty decompressRLEChunk_empty simp_thms)
qed

theorem chunkRange_partition_witness:
  "(1::nat) \<le> 3
   \<and> chunkRange 10 3 0 = (0, 3) \<and> chunkRange 10 3 1 = (3, 6) \<and> chunkRange 10 3 2 = (6, 10)
   \<and> (2::nat) < 3
   \<and> chunkRange 2 3 0 = (0, 0) \<and> chunkRange 2 3 1 = (0, 0) \<and> chunkRange 2 3 2 = (0, 2)
   \<and> compressRLEChunk [1, 2] 0 0 = Some [] \<and> decompressRLEChunk [1, 2] 0 0 = Some ([], [])"
  using chunkRange_partition [of 3 10 "[1, 2]" 0] chunkRange_partition [of 3 2 "[1, 2]" 0]
  by (simp add: chunkRange_def)

section \<open>The fan-out processes the chunks independently\<close>

text \<open>
  C7. For \<open>W \<ge> 1\<close> threads that each store their result once, in any order, the merged
  output of the encoding fan-out is the concatenation, in chunk order, of the results of
  \<^verbatim>\<open>compressRLEChunk\<close> run on each chunk as a buffer of its own (the bytes of the range,
  from offset 0); and the merged output of the decoding fan-out is the concatenation, in
  chunk order, of the results of \<^verbatim>\<open>decompressRLEChunk\<close> on each copied byte range, with
  nothing reported. So a run never continues across a chunk boundary: eight bytes
  \<^verbatim>\<open>0x41\<close> give \<open>(0x41, 8)\<close> as one chunk and \<open>(0x41, 4), (0x41, 4)\<close> as two chunks,
  whichever thread finishes first.
\<close>

theorem chunks_independent:
  "(1 \<le> W \<and> set sched = {0..<W} \<longrightarrow>
      (\<exists>outs. length outs = W
         \<and> (\<forall>i<W. case chunkRange (length data) W i of (s, e) \<Rightarrow>
                     compressRLEChunk (take (e - s) (drop s data)) 0 (e - s) = Some (outs ! i))
         \<and> compressChunks sched data W = Some (concat outs))
    \<and> (\<exists>outs. length outs = W
         \<and> (\<forall>i<W. case chunkRange (length raw div 2) W i of (sp, ep) \<Rightarrow>
                     decompressRLEChunk (take (ep * 2 - sp * 2) (drop (sp * 2) raw)) 0 (ep * 2 - sp * 2)
                       = Some (outs ! i, []))
         \<and> decompressChunks sched raw W = Some (concat outs, [])))
   \<and> compressChunks [0] (replicate 8 0x41) 1 = Some [0x41, 8]
   \<and> compressChunks [0, 1] (replicate 8 0x41) 2 = Some [0x41, 4, 0x41, 4]
   \<and> compressChunks [1, 0] (replicate 8 0x41) 2 = Some [0x41, 4, 0x41, 4]"
proof (intro conjI impI)
  assume a: "1 \<le> W \<and> set sched = {0..<W}"
  let ?b = "bound (length data) W"
  let ?outs = "map (\<lambda>i. the (compressJob data W i)) [0..<W]"
  have "case chunkRange (length data) W i of (s, e) \<Rightarrow>
          compressRLEChunk (take (e - s) (drop s data)) 0 (e - s) = Some (?outs ! i)" if "i < W" for i
  proof -
    have "compressRLEChunk (take (?b (Suc i) - ?b i) (drop (?b i) data)) 0 (?b (Suc i) - ?b i)
            = compressRLEChunk data (?b i) (?b (Suc i))"
      by (intro compressRLEChunk_slice bound_Suc bound_le)
    also have "\<dots> = compressJob data W i"
      using that by (simp add: compressJob_def chunkRange_bound)
    also have "\<dots> = Some (?outs ! i)"
      using that compressJob_spec[OF that, of data] by auto
    finally show ?thesis
      using that by (simp add: chunkRange_bound)
  qed
  moreover have "compressChunks sched data W = Some (concat ?outs)"
    using a compressChunks_spec[of W sched data] by auto
  ultimately show "\<exists>outs. length outs = W
         \<and> (\<forall>i<W. case chunkRange (length data) W i of (s, e) \<Rightarrow>
                     compressRLEChunk (take (e - s) (drop s data)) 0 (e - s) = Some (outs ! i))
         \<and> compressChunks sched data W = Some (concat outs)"
    by (intro exI[of _ ?outs]) simp
next
  assume a: "1 \<le> W \<and> set sched = {0..<W}"
  let ?b = "bound (length raw div 2) W"
  let ?outs = "map (\<lambda>i. expand (take (?b (Suc i) * 2 - ?b i * 2) (drop (?b i * 2) raw))) [0..<W]"
  have "case chunkRange (length raw div 2) W i of (sp, ep) \<Rightarrow>
          decompressRLEChunk (take (ep * 2 - sp * 2) (drop (sp * 2) raw)) 0 (ep * 2 - sp * 2)
            = Some (?outs ! i, [])" if "i < W" for i
  proof -
    have "?b (Suc i) \<le> length raw div 2" by (rule bound_le)
    then have "?b (Suc i) * 2 \<le> length raw" by simp
    moreover have "?b i * 2 \<le> ?b (Suc i) * 2"
      using bound_Suc[of "length raw div 2" W i] by simp
    moreover have "even (?b (Suc i) * 2 - ?b i * 2)" by simp
    ultimately have "decompressRLEChunk (take (?b (Suc i) * 2 - ?b i * 2) (drop (?b i * 2) raw)) 0
          (?b (Suc i) * 2 - ?b i * 2)
        = Some (expand (take (?b (Suc i) * 2 - ?b i * 2) (drop (?b i * 2) raw)), [])"
      by (intro decompressRLEChunk_slice)
    then show ?thesis
      using that by (simp add: chunkRange_bound)
  qed
  moreover have "decompressChunks sched raw W = Some (concat ?outs, [])"
    using a decompressChunks_concat[of W sched raw] by simp
  ultimately show "\<exists>outs. length outs = W
         \<and> (\<forall>i<W. case chunkRange (length raw div 2) W i of (sp, ep) \<Rightarrow>
                     decompressRLEChunk (take (ep * 2 - sp * 2) (drop (sp * 2) raw)) 0 (ep * 2 - sp * 2)
                       = Some (outs ! i, []))
         \<and> decompressChunks sched raw W = Some (concat outs, [])"
    by (intro exI[of _ ?outs]) simp
next
  show "compressChunks [0] (replicate 8 0x41) 1 = Some [0x41, 8]"
    by code_simp
  show "compressChunks [0, 1] (replicate 8 0x41) 2 = Some [0x41, 4, 0x41, 4]"
    by code_simp
  show "compressChunks [1, 0] (replicate 8 0x41) 2 = Some [0x41, 4, 0x41, 4]"
    by code_simp
qed

theorem chunks_independent_witness:
  "(1::nat) \<le> 2 \<and> set [1, 0] = {0..<2::nat}
   \<and> chunkRange (length [0x41, 0x41, 0x41, 0x41, 0x41, 0x41, 0x41, 0x41 :: byte]) 2 0 = (0, 4)
   \<and> chunkRange (length [0x41, 0x41, 0x41, 0x41, 0x41, 0x41, 0x41, 0x41 :: byte]) 2 1 = (4, 8)
   \<and> compressRLEChunk [0x41, 0x41, 0x41, 0x41] 0 4 = Some [0x41, 4]
   \<and> compressChunks [1, 0] [0x41, 0x41, 0x41, 0x41, 0x41, 0x41, 0x41, 0x41] 2
        = Some (concat [[0x41, 4], [0x41, 4]])
   \<and> decompressChunks [1, 0] [0x41, 4, 0x42, 1, 0x43, 2] 2
        = Some (concat [[0x41, 0x41, 0x41, 0x41], [0x42, 0x43, 0x43]], [])"
proof -
  let ?data = "[0x41, 0x41, 0x41, 0x41, 0x41, 0x41, 0x41, 0x41 :: byte]"
  let ?raw = "[0x41, 4, 0x42, 1, 0x43, 2 :: byte]"
  have h: "(1::nat) \<le> 2 \<and> set [1, 0] = {0..<2::nat}"
    by auto
  note claim = chunks_independent [of 2 "[1, 0]" ?data ?raw, THEN conjunct1, THEN mp, OF h]
  from claim [THEN conjunct1] obtain outs where "compressChunks [1, 0] ?data 2 = Some (concat outs)"
    by blast
  moreover from claim [THEN conjunct2] obtain douts where
      "decompressChunks [1, 0] ?raw 2 = Some (concat douts, [])"
    by blast
  moreover have "compressChunks [1, 0] ?data 2 = Some [0x41, 4, 0x41, 4]"
    and "decompressChunks [1, 0] ?raw 2 = Some ([0x41, 0x41, 0x41, 0x41, 0x42, 0x43, 0x43], [])"
    and "compressRLEChunk [0x41, 0x41, 0x41, 0x41] 0 4 = Some [0x41, 4]"
    by code_simp+
  ultimately show ?thesis
    using h by (simp add: chunkRange_def)
qed

section \<open>The header byte\<close>

text \<open>
  C8. A container whose first byte is neither \<^verbatim>\<open>'C'\<close> nor \<^verbatim>\<open>'U'\<close> is refused with the
  unknown-header error and nothing is written; after the header \<^verbatim>\<open>'U'\<close> the rest of the
  container is returned as it is.
\<close>

theorem header_dispatch:
  "(header \<noteq> 0x43 \<and> header \<noteq> 0x55 \<longrightarrow>
      decompressFile (header # payload) hw = Inl UnknownHeader)
   \<and> decompressFile (0x55 # payload) hw = Inr (payload, [])"
  by (simp add: decompressFile_def decompressWith_def)

theorem header_dispatch_witness:
  "(0x58 :: byte) \<noteq> 0x43 \<and> (0x58 :: byte) \<noteq> 0x55
   \<and> decompressFile [0x58, 0x41, 0x02] 4 = Inl UnknownHeader
   \<and> decompressFile [0x55, 0x41, 0x02] 4 = Inr ([0x41, 0x02], [])"
  using header_dispatch [of "0x58" "[0x41, 0x02]" 4] by simp

section \<open>The number of worker threads\<close>

text \<open>
  C9 (as amended). Both file operations use the number the host reports when it is not
  zero, and 2 when the host reports zero; so they use at least one thread, and exactly
  one on a host that reports 1.
\<close>

theorem numThreads_fallback:
  "(hw \<noteq> 0 \<longrightarrow> numThreadsOf hw = hw) \<and> numThreadsOf 0 = 2
   \<and> 1 \<le> unat (numThreadsOf hw)
   \<and> compressFile data hw = compressWith data (unat (numThreadsOf hw))
   \<and> decompressFile data hw = decompressWith data (unat (numThreadsOf hw))"
  using numThreadsOf_ge [of hw]
  by (simp add: numThreadsOf_def compressFile_def decompressFile_def)

theorem numThreads_fallback_witness:
  "(3::32 word) \<noteq> 0 \<and> numThreadsOf 3 = 3 \<and> 1 \<le> unat (numThreadsOf 3)
   \<and> compressFile [7, 7, 7] 3 = compressWith [7, 7, 7] (unat (numThreadsOf 3))"
  using numThreads_fallback [of 3 "[7, 7, 7]"] by simp

theorem numThreads_floor_counterexample:
  "unat (numThreadsOf 1) = 1 \<and> \<not> 2 \<le> unat (numThreadsOf 1)"
  by (simp add: numThreadsOf_def)

section \<open>The chunk decoder does not validate counts\<close>

text \<open>
  C10. On a range of even length inside the buffer the chunk decoder reports nothing on
  \<^verbatim>\<open>std::cerr\<close> and returns, for each pair in order, as many copies of the value byte as
  the count byte says, read as an unsigned number. A count byte of 0 is accepted and
  contributes no output, so the length of the output is the sum of the count bytes.
\<close>

theorem decompressRLEChunk_no_count_validation:
  "(start \<le> stop \<and> stop \<le> length data \<and> even (stop - start) \<longrightarrow>
      (\<exists>out. decompressRLEChunk data start stop = Some (out, []) \<and>
         out = concat (map (\<lambda>k. replicate (unat (data ! (start + 2 * k + 1))) (data ! (start + 2 * k)))
                           [0..<(stop - start) div 2]) \<and>
         length out = sum_list (map (\<lambda>k. unat (data ! (start + 2 * k + 1)))
                                     [0..<(stop - start) div 2])))
   \<and> decompressRLEChunk [v, 0] 0 2 = Some ([], [])
   \<and> decompressRLEChunk [0x41, 2, v, 0, 0x42, 1] 0 6 = Some ([0x41, 0x41, 0x42], [])"
proof (intro conjI impI)
  assume a: "start \<le> stop \<and> stop \<le> length data \<and> even (stop - start)"
  let ?xs = "take (stop - start) (drop start data)"
  let ?n = "(stop - start) div 2"
  let ?out = "concat (map (\<lambda>k. replicate (unat (data ! (start + 2 * k + 1))) (data ! (start + 2 * k)))
                           [0..<?n])"
  from a have b: "start \<le> stop" "stop \<le> length data" and c: "even (stop - start)"
    by blast+
  from b have len: "length ?xs = stop - start" by simp
  have "expand ?xs = concat (map (\<lambda>k. replicate (unat (?xs ! (2 * k + 1))) (?xs ! (2 * k))) [0..<?n])"
    by (subst expand_conv_concat) (simp only: len)
  also have "\<dots> = ?out"
  proof (intro arg_cong[where f = concat] map_cong refl)
    fix k assume "k \<in> set [0..<?n]"
    then have "2 * k + 1 < stop - start" by auto
    with b show "replicate (unat (?xs ! (2 * k + 1))) (?xs ! (2 * k)) =
                 replicate (unat (data ! (start + 2 * k + 1))) (data ! (start + 2 * k))"
      by (simp add: add.assoc)
  qed
  finally have "decompressRLEChunk data start stop = Some (?out, [])"
    by (simp only: decompressRLEChunk_even[OF b c])
  moreover have "length ?out = sum_list (map (\<lambda>k. unat (data ! (start + 2 * k + 1))) [0..<?n])"
    by (simp add: length_concat comp_def)
  ultimately show "\<exists>out. decompressRLEChunk data start stop = Some (out, []) \<and>
         out = ?out \<and> length out = sum_list (map (\<lambda>k. unat (data ! (start + 2 * k + 1))) [0..<?n])"
    by blast
next
  show "decompressRLEChunk [v, 0] 0 2 = Some ([], [])"
    using decompressRLEChunk_even[of 0 2 "[v, 0]"] by simp
next
  show "decompressRLEChunk [0x41, 2, v, 0, 0x42, 1] 0 6 = Some ([0x41, 0x41, 0x42], [])"
    by code_simp
qed

theorem decompressRLEChunk_no_count_validation_witness:
  "(0::nat) \<le> 4 \<and> 4 \<le> length [9, 0, 8, 3 :: byte] \<and> even (4 - 0 :: nat)
   \<and> decompressRLEChunk [9, 0, 8, 3] 0 4 = Some ([8, 8, 8], [])
   \<and> length [8, 8, 8 :: byte] = unat (0 :: byte) + unat (3 :: byte)
   \<and> decompressRLEChunk [9, 0] 0 2 = Some ([], [])"
proof -
  note claim = decompressRLEChunk_no_count_validation [of 0 4 "[9, 0, 8, 3]" 9]
  have h: "(0::nat) \<le> 4 \<and> 4 \<le> length [9, 0, 8, 3 :: byte] \<and> even (4 - 0 :: nat)"
    by simp
  from claim [THEN conjunct1, THEN mp, OF h]
  obtain out where "decompressRLEChunk [9, 0, 8, 3] 0 4 = Some (out, [])"
    by blast
  moreover have "decompressRLEChunk [9, 0, 8, 3] 0 4 = Some ([8, 8, 8], [])"
    by code_simp
  moreover have "decompressRLEChunk [9, 0] 0 2 = Some ([], [])"
    by (rule claim [THEN conjunct2, THEN conjunct1])
  ultimately show ?thesis
    using h by auto
qed

end
